theory Spec2Isabelle
  imports Complex_Main "HOL-Library.Multiset" "HOL-Library.Sublist"
begin

section \<open>The region model of \<^verbatim>\<open>model.py\<close>\<close>

text \<open>
  The coordinates of a rectangle are Python numbers, integers or floats. Every integer
  and every finite float is a real number, and the comparisons \<^verbatim>\<open><=\<close>, \<^verbatim>\<open>>=\<close>,
  \<^verbatim>\<open>>\<close>, \<^verbatim>\<open>min\<close> and \<^verbatim>\<open>max\<close> on them are the comparisons of these reals, so
  the coordinates are modelled as real numbers. The arithmetic on coordinates
  (\<^verbatim>\<open>width\<close>, \<^verbatim>\<open>height\<close>, \<^verbatim>\<open>perimeter\<close>, \<^verbatim>\<open>area\<close>, \<^verbatim>\<open>center\<close>,
  \<^verbatim>\<open>separation\<close>) is arithmetic of floats, which rounds and overflows; the reals do
  not model it, and these methods are left out.
\<close>

subsection \<open>Errors raised by the modelled code\<close>

datatype seq_name = GraphList | ParentList | RankList

datatype pyerror = IndexError seq_name | AttributeError

subsection \<open>class Rect\<close>

record Rect =
  left :: real
  right :: real
  top' :: real
  bottom :: real

definition Rect_init :: "real \<Rightarrow> real \<Rightarrow> real \<Rightarrow> real \<Rightarrow> Rect" where
  "Rect_init l r t b = \<lparr>left = l, right = r, top' = t, bottom = b\<rparr>"

definition contains :: "'a Rect_scheme \<Rightarrow> 'b Rect_scheme \<Rightarrow> bool" where
  "contains self other_rect \<longleftrightarrow>
     (left other_rect \<ge> left self \<and> right other_rect \<le> right self \<and>
      top' other_rect \<ge> top' self \<and> bottom other_rect \<le> bottom self)"

definition overlaps :: "'a Rect_scheme \<Rightarrow> 'b Rect_scheme \<Rightarrow> bool" where
  "overlaps self other_rect \<longleftrightarrow>
     (min (right self) (right other_rect) > max (left self) (left other_rect) \<and>
      min (bottom self) (bottom other_rect) > max (top' self) (top' other_rect))"

subsection \<open>class Panel\<close>

text \<open>
  The attribute \<^verbatim>\<open>_repeating\<close> does not exist until the setter has run, so the
  backing field is optional. The getter of the property \<^verbatim>\<open>repeating\<close> is
  \<^verbatim>\<open>return self.repeating\<close>, a call of the getter itself: it is a recursive
  function that may not return, and \<open>None\<close> is the value of not returning.
\<close>

record Panel = Rect +
  tag :: string
  priv_repeating :: "bool option"

partial_function (option) repeating :: "'a Panel_scheme \<Rightarrow> bool option" where
  [code]: "repeating self = repeating self"

definition repeating_setter :: "'a Panel_scheme \<Rightarrow> bool \<Rightarrow> 'a Panel_scheme" where
  "repeating_setter self v = self\<lparr>priv_repeating := Some v\<rparr>"

definition Panel_init :: "real \<Rightarrow> real \<Rightarrow> real \<Rightarrow> real \<Rightarrow> string \<Rightarrow> Panel" where
  "Panel_init l r t b tg =
     repeating_setter
       \<lparr>left = l, right = r, top' = t, bottom = b, tag = tg, priv_repeating = None\<rparr> False"

subsection \<open>class Label and class Diagram\<close>

record Label = Panel +
  priv_text :: "string option"

definition Label_init :: "real \<Rightarrow> real \<Rightarrow> real \<Rightarrow> real \<Rightarrow> string \<Rightarrow> Label" where
  "Label_init l r t b tg =
     repeating_setter
       \<lparr>left = l, right = r, top' = t, bottom = b, tag = tg, priv_repeating = None,
        priv_text = None\<rparr> False"

text \<open>
  The field \<^verbatim>\<open>_label\<close> of a diagram holds any Python object: \<^verbatim>\<open>None\<close>, a label
  (which has the attribute \<^verbatim>\<open>tag\<close>), or an object without that attribute.
\<close>

datatype pyref = PyNone | PyLabel Label | PyOther

record Diagram = Panel +
  priv_label :: pyref
  priv_smile :: "string option"

definition Diagram_init ::
  "real \<Rightarrow> real \<Rightarrow> real \<Rightarrow> real \<Rightarrow> string \<Rightarrow> pyref \<Rightarrow> string option \<Rightarrow> Diagram" where
  "Diagram_init l r t b tg lbl smi =
     repeating_setter
       \<lparr>left = l, right = r, top' = t, bottom = b, tag = tg, priv_repeating = None,
        priv_label = lbl, priv_smile = smi\<rparr> False"

definition label :: "Diagram \<Rightarrow> pyref" where
  "label self = priv_label self"

definition label_setter :: "Diagram \<Rightarrow> pyref \<Rightarrow> Diagram" where
  "label_setter self lbl = self\<lparr>priv_label := lbl\<rparr>"

definition smile :: "Diagram \<Rightarrow> string option" where
  "smile self = priv_smile self"

definition smile_setter :: "Diagram \<Rightarrow> string option \<Rightarrow> Diagram" where
  "smile_setter self smi = self\<lparr>priv_smile := smi\<rparr>"

text \<open>The attribute access \<^verbatim>\<open>obj.tag\<close>, and \<^verbatim>\<open>'%s' % v\<close> for an optional string.\<close>

definition getattr_tag :: "pyref \<Rightarrow> pyerror + string" where
  "getattr_tag obj =
     (case obj of PyNone \<Rightarrow> Inl AttributeError
      | PyLabel l \<Rightarrow> Inr (tag l)
      | PyOther \<Rightarrow> Inl AttributeError)"

definition str_opt :: "string option \<Rightarrow> string" where
  "str_opt v = (case v of None \<Rightarrow> ''None'' | Some s \<Rightarrow> s)"

definition Diagram_repr :: "Diagram \<Rightarrow> pyerror + string" where
  "Diagram_repr self =
     (case getattr_tag (label self) of
        Inl err \<Rightarrow> Inl err
      | Inr t \<Rightarrow> Inr (''Diagram'' @ ''(label='' @ t @ '', smile='' @ str_opt (smile self)))"

definition Diagram_str :: "Diagram \<Rightarrow> pyerror + string" where
  "Diagram_str self =
     (case getattr_tag (label self) of
        Inl err \<Rightarrow> Inl err
      | Inr t \<Rightarrow> Inr (''<'' @ ''Diagram'' @ '' ('' @ t @ '', '' @ str_opt (smile self) @ '')>''))"

section \<open>The weighted graph and Kruskal's algorithm\<close>

subsection \<open>Python lists and outcomes\<close>

text \<open>
  Reading and writing \<^verbatim>\<open>xs[i]\<close>: a negative index counts from the end, an index
  outside the list raises \<^verbatim>\<open>IndexError\<close>. The first argument names the list, so
  that the error says which list was read out of range.
\<close>

definition getitem :: "seq_name \<Rightarrow> 'a list \<Rightarrow> int \<Rightarrow> pyerror + 'a" where
  "getitem nm xs i =
     (if 0 \<le> i \<and> i < int (length xs) then Inr (xs ! nat i)
      else if - int (length xs) \<le> i \<and> i < 0 then Inr (xs ! nat (int (length xs) + i))
      else Inl (IndexError nm))"

definition setitem :: "seq_name \<Rightarrow> 'a list \<Rightarrow> int \<Rightarrow> 'a \<Rightarrow> pyerror + 'a list" where
  "setitem nm xs i x =
     (if 0 \<le> i \<and> i < int (length xs) then Inr (xs[nat i := x])
      else if - int (length xs) \<le> i \<and> i < 0 then Inr (xs[nat (int (length xs) + i) := x])
      else Inl (IndexError nm))"

text \<open>
  A call has three outcomes: it does not return (\<open>None\<close>), it raises
  (\<open>Some (Inl err)\<close>), or it returns a value (\<open>Some (Inr x)\<close>).
\<close>

type_synonym 'a outcome = "(pyerror + 'a) option"

definition raise :: "pyerror \<Rightarrow> 'a outcome" where
  "raise err = Some (Inl err)"

definition return :: "'a \<Rightarrow> 'a outcome" where
  "return x = Some (Inr x)"

definition lift :: "pyerror + 'a \<Rightarrow> 'a outcome" where
  "lift r = Some r"

definition bind :: "'a outcome \<Rightarrow> ('a \<Rightarrow> 'b outcome) \<Rightarrow> 'b outcome" where
  "bind m f = (case m of None \<Rightarrow> None | Some (Inl err) \<Rightarrow> Some (Inl err) | Some (Inr x) \<Rightarrow> f x)"

subsection \<open>class Graph\<close>

type_synonym 'w edge = "int \<times> int \<times> 'w"

record 'w Graph =
  V :: int
  graph :: "'w edge list"

definition Graph_init :: "int \<Rightarrow> 'w Graph" where
  "Graph_init vertices = \<lparr>V = vertices, graph = []\<rparr>"

definition addEdge :: "'w Graph \<Rightarrow> int \<Rightarrow> int \<Rightarrow> 'w \<Rightarrow> 'w Graph" where
  "addEdge self u v w = self\<lparr>graph := graph self @ [(u, v, w)]\<rparr>"

text \<open>
  \<^verbatim>\<open>find\<close> climbs the parent links by recursion; on a list of links with a cycle the
  recursion does not end.
\<close>

partial_function (option) Graph_find :: "int list \<Rightarrow> int \<Rightarrow> int outcome" where
  [code]: "Graph_find parent i =
     (case getitem ParentList parent i of
        Inl err \<Rightarrow> Some (Inl err)
      | Inr p \<Rightarrow> if p = i then Some (Inr i) else Graph_find parent p)"

definition Graph_union ::
  "int list \<Rightarrow> int list \<Rightarrow> int \<Rightarrow> int \<Rightarrow> (int list \<times> int list) outcome" where
  "Graph_union parent rank x y =
     bind (Graph_find parent x) (\<lambda>xroot.
     bind (Graph_find parent y) (\<lambda>yroot.
     bind (lift (getitem RankList rank xroot)) (\<lambda>rx.
     bind (lift (getitem RankList rank yroot)) (\<lambda>ry.
       if rx < ry then
         bind (lift (setitem ParentList parent xroot yroot)) (\<lambda>parent'.
         return (parent', rank))
       else if rx > ry then
         bind (lift (setitem ParentList parent yroot xroot)) (\<lambda>parent'.
         return (parent', rank))
       else
         bind (lift (setitem ParentList parent yroot xroot)) (\<lambda>parent'.
         bind (lift (setitem RankList rank xroot (rx + 1))) (\<lambda>rank'.
         return (parent', rank')))))))"

text \<open>The subsets of single elements: \<^verbatim>\<open>for node in range(self.V)\<close>.\<close>

definition range' :: "int \<Rightarrow> int list" where
  "range' n = [0..n - 1]"

definition make_sets :: "int \<Rightarrow> int list \<times> int list" where
  "make_sets n =
     fold (\<lambda>node (parent, rank). (parent @ [node], rank @ [0])) (range' n) ([], [])"

text \<open>
  The loop \<^verbatim>\<open>while e < self.V - 1\<close>, with the sorted edge list \<open>g\<close> and the state
  \<open>i\<close>, \<open>e\<close>, \<open>parent\<close>, \<open>rank\<close>, \<open>result\<close>.
\<close>

function kruskal_loop ::
  "int \<Rightarrow> 'w edge list \<Rightarrow> int \<Rightarrow> int \<Rightarrow> int list \<Rightarrow> int list \<Rightarrow> 'w edge list
     \<Rightarrow> 'w edge list outcome" where
  "kruskal_loop n g i e parent rank result =
     (if e < n - 1 then
        (case getitem GraphList g i of
           Inl err \<Rightarrow> Some (Inl err)
         | Inr (u, v, w) \<Rightarrow>
            (case Graph_find parent u of
               None \<Rightarrow> None
             | Some (Inl err) \<Rightarrow> Some (Inl err)
             | Some (Inr x) \<Rightarrow>
                (case Graph_find parent v of
                   None \<Rightarrow> None
                 | Some (Inl err) \<Rightarrow> Some (Inl err)
                 | Some (Inr y) \<Rightarrow>
                    if x \<noteq> y then
                      (case Graph_union parent rank x y of
                         None \<Rightarrow> None
                       | Some (Inl err) \<Rightarrow> Some (Inl err)
                       | Some (Inr (parent', rank')) \<Rightarrow>
                           kruskal_loop n g (i + 1) (e + 1) parent' rank' (result @ [(u, v, w)]))
                    else kruskal_loop n g (i + 1) e parent rank result)))
      else Some (Inr result))"
  by pat_completeness auto
termination
  by (relation "measure (\<lambda>(n, g, i, e, parent, rank, result). nat (int (length g) - i))")
     (auto simp: getitem_def split: if_splits)

declare kruskal_loop.simps [simp del]

text \<open>
  \<^verbatim>\<open>kruskal\<close> stores the sorted edge list in \<^verbatim>\<open>self.graph\<close> before anything else,
  so the graph is returned with the outcome. \<^verbatim>\<open>sorted\<close> is stable, as \<open>sort_key\<close> is.
\<close>

definition kruskal :: "('w::linorder) Graph \<Rightarrow> 'w edge list outcome \<times> 'w Graph" where
  "kruskal self =
     (let self' = self\<lparr>graph := sort_key (\<lambda>item. snd (snd item)) (graph self)\<rparr>;
          (parent, rank) = make_sets (V self')
      in (kruskal_loop (V self') (graph self') 0 0 parent rank [], self'))"

subsection \<open>Notions used to state the properties of the graph\<close>

definition weight :: "'w edge \<Rightarrow> 'w" where
  "weight item = snd (snd item)"

definition total_weight :: "('w::monoid_add) edge list \<Rightarrow> 'w" where
  "total_weight es = sum_list (map weight es)"

text \<open>A graph built by a sequence of \<^verbatim>\<open>addEdge\<close> calls.\<close>

definition add_edges :: "'w Graph \<Rightarrow> 'w edge list \<Rightarrow> 'w Graph" where
  "add_edges self es = foldl (\<lambda>g (u, v, w). addEdge g u v w) self es"


text \<open>
  The vertices of a graph with \<open>n\<close> vertices are \<open>0, \<dots>, n - 1\<close>, and every edge of
  a well-formed graph joins two of them. Two vertices are joined by a list of edges when
  a path of these edges, taken in either direction, leads from one to the other.
\<close>

definition vertices :: "int \<Rightarrow> int set" where
  "vertices n = {0..<n}"

definition valid_edges :: "int \<Rightarrow> 'w edge list \<Rightarrow> bool" where
  "valid_edges n es \<longleftrightarrow> (\<forall>(u, v, w) \<in> set es. u \<in> vertices n \<and> v \<in> vertices n)"

definition links :: "'w edge list \<Rightarrow> (int \<times> int) set" where
  "links es = (\<Union>(u, v, w) \<in> set es. {(u, v), (v, u)})"

definition joined :: "'w edge list \<Rightarrow> (int \<times> int) set" where
  "joined es = (links es)\<^sup>*"

text \<open>
  A connected graph has a vertex, and any two of its vertices are joined. A graph is
  disconnected when two of its vertices are not joined.
\<close>

definition connected_graph :: "int \<Rightarrow> 'w edge list \<Rightarrow> bool" where
  "connected_graph n es \<longleftrightarrow> 0 < n \<and> (\<forall>u \<in> vertices n. \<forall>v \<in> vertices n. (u, v) \<in> joined es)"

definition disconnected_graph :: "int \<Rightarrow> 'w edge list \<Rightarrow> bool" where
  "disconnected_graph n es \<longleftrightarrow> (\<exists>u \<in> vertices n. \<exists>v \<in> vertices n. (u, v) \<notin> joined es)"

text \<open>
  A spanning tree of the graph takes \<open>n - 1\<close> of its edges (an edge as often as the
  graph has it, at most) and joins all the vertices.
\<close>

definition spanning_tree :: "int \<Rightarrow> 'w edge list \<Rightarrow> 'w edge list \<Rightarrow> bool" where
  "spanning_tree n es t \<longleftrightarrow>
     mset t \<subseteq># mset es \<and> int (length t) = n - 1 \<and> connected_graph n t"

text \<open>
  The components of a list of edges are counted by their least vertices.
\<close>

definition reps :: "int \<Rightarrow> 'w edge list \<Rightarrow> int set" where
  "reps n es = {v \<in> vertices n. \<forall>u \<in> vertices n. (u, v) \<in> joined es \<longrightarrow> v \<le> u}"

definition ncomp :: "int \<Rightarrow> 'w edge list \<Rightarrow> nat" where
  "ncomp n es = card (reps n es)"

text \<open>
  \<open>root_of parent i r\<close>: climbing the parent links from \<open>i\<close> ends in \<open>r\<close>, which is
  its own parent.
\<close>

inductive root_of :: "int list \<Rightarrow> int \<Rightarrow> int \<Rightarrow> bool" for parent :: "int list" where
  root: "0 \<le> i \<Longrightarrow> i < int (length parent) \<Longrightarrow> parent ! nat i = i \<Longrightarrow> root_of parent i i"
| link: "0 \<le> i \<Longrightarrow> i < int (length parent) \<Longrightarrow> parent ! nat i \<noteq> i
      \<Longrightarrow> root_of parent (parent ! nat i) r \<Longrightarrow> root_of parent i r"

subsection \<open>Invariants of the loop of \<open>kruskal\<close>\<close>

text \<open>
  The parent links form a forest over the vertices whose trees are the components of the
  accepted edges.
\<close>

definition uf_inv :: "int \<Rightarrow> int list \<Rightarrow> int list \<Rightarrow> 'w edge list \<Rightarrow> bool" where
  "uf_inv n parent rank acc \<longleftrightarrow>
     length parent = nat n \<and> length rank = nat n \<and>
     (\<forall>v \<in> vertices n. \<exists>r. root_of parent v r) \<and>
     (\<forall>u \<in> vertices n. \<forall>v \<in> vertices n. \<forall>ru rv.
        root_of parent u ru \<longrightarrow> root_of parent v rv \<longrightarrow> (ru = rv \<longleftrightarrow> (u, v) \<in> joined acc))"

text \<open>
  Every accepted edge joined two components, and every edge of the graph that is lighter
  than an accepted edge lies within a component of the edges accepted before it.
\<close>

definition greedy :: "int \<Rightarrow> ('w::linorder) edge list \<Rightarrow> 'w edge list \<Rightarrow> bool" where
  "greedy n g acc \<longleftrightarrow>
     (\<forall>j \<le> length acc. ncomp n (take j acc) + j = nat n) \<and>
     (\<forall>j < length acc. \<forall>(a, b, w) \<in> set g.
        w < weight (acc ! j) \<longrightarrow> (a, b) \<in> joined (take j acc))"

definition kruskal_inv ::
  "int \<Rightarrow> ('w::linorder) edge list \<Rightarrow> int \<Rightarrow> int \<Rightarrow> int list \<Rightarrow> int list \<Rightarrow> 'w edge list
     \<Rightarrow> bool" where
  "kruskal_inv n g i e parent rank result \<longleftrightarrow>
     0 \<le> i \<and> i \<le> int (length g) \<and> e = int (length result) \<and>
     uf_inv n parent rank result \<and>
     joined result = joined (take (nat i) g) \<and>
     subseq result (take (nat i) g) \<and>
     greedy n g result"

section \<open>Properties of the region model\<close>

text \<open>
  Claim C5. \<open>overlaps\<close> holds exactly when the projections of the two rectangles
  intersect with strictly positive length on both axes; it is symmetric; and two
  rectangles that meet only along a boundary (the right edge of one is the left edge of
  the other, or the bottom edge of one is the top edge of the other) do not overlap.
\<close>

theorem overlaps_strict_symmetric:
  "(overlaps a b \<longleftrightarrow>
      min (right a) (right b) > max (left a) (left b) \<and>
      min (bottom a) (bottom b) > max (top' a) (top' b))
   \<and> overlaps a b = overlaps b a
   \<and> ((right a = left b \<or> left a = right b \<or> bottom a = top' b \<or> top' a = bottom b)
        \<longrightarrow> \<not> overlaps a b)"
  by (auto simp: overlaps_def)

theorem overlaps_strict_symmetric_witness:
  "right (Rect_init 0 10 0 10) = left (Rect_init 10 20 0 10)
   \<and> \<not> overlaps (Rect_init 0 10 0 10) (Rect_init 10 20 0 10)
   \<and> overlaps (Rect_init 0 10 0 10) (Rect_init 5 15 0 10)
   \<and> overlaps (Rect_init 5 15 0 10) (Rect_init 0 10 0 10)"
  using overlaps_strict_symmetric [of "Rect_init 0 10 0 10" "Rect_init 10 20 0 10"]
    overlaps_strict_symmetric [of "Rect_init 0 10 0 10" "Rect_init 5 15 0 10"]
  by (simp add: Rect_init_def overlaps_def)

text \<open>
  Claim C6. \<open>contains\<close> holds exactly when the four edges of the other rectangle lie
  inclusively within the edges of this one; the relation is reflexive and transitive.
\<close>

theorem contains_inclusive_preorder:
  "(contains a b \<longleftrightarrow>
      left b \<ge> left a \<and> right b \<le> right a \<and> top' b \<ge> top' a \<and> bottom b \<le> bottom a)
   \<and> contains a a
   \<and> (contains a b \<and> contains b c \<longrightarrow> contains a c)"
  by (auto simp: contains_def)

theorem contains_inclusive_preorder_witness:
  "contains (Rect_init 0 10 0 10) (Rect_init 1 9 1 9)
   \<and> contains (Rect_init 1 9 1 9) (Rect_init 2 3 4 9)
   \<and> contains (Rect_init 0 10 0 10) (Rect_init 2 3 4 9)"
  using contains_inclusive_preorder
    [of "Rect_init 0 10 0 10" "Rect_init 1 9 1 9" "Rect_init 2 3 4 9"]
  by (simp add: Rect_init_def contains_def)

text \<open>
  Claim C9. Reading the attribute \<^verbatim>\<open>repeating\<close> of a panel (a diagram and a label
  are panels) never returns a value, although the setter, and the constructor through
  it, store the flag in the backing field.
\<close>

theorem repeating_getter_never_returns:
  "repeating p = None
   \<and> priv_repeating (repeating_setter p v) = Some v
   \<and> priv_repeating (Panel_init l r t b tg) = Some False
   \<and> priv_repeating (Label_init l r t b tg) = Some False
   \<and> priv_repeating (Diagram_init l r t b tg lbl smi) = Some False"
proof -
  have "repeating p \<noteq> Some y" for y
    using repeating.raw_induct [where P = "\<lambda>_ _. False" and self = p and y = y] by blast
  then have "repeating p = None"
    using not_Some_eq by blast
  then show ?thesis
    by (simp add: repeating_setter_def Panel_init_def Label_init_def Diagram_init_def)
qed

text \<open>
  Claim C10. A diagram constructed with the default label \<^verbatim>\<open>None\<close> has the label
  \<^verbatim>\<open>None\<close>; on a diagram whose label is \<^verbatim>\<open>None\<close> both \<^verbatim>\<open>__repr__\<close> and
  \<^verbatim>\<open>__str__\<close> fail with an attribute error; and either conversion returns a string
  exactly when the label is an object that carries a tag.
\<close>

theorem Diagram_repr_needs_label:
  "label (Diagram_init l r t b tg PyNone smi) = PyNone
   \<and> (label d = PyNone \<longrightarrow>
        Diagram_repr d = Inl AttributeError \<and> Diagram_str d = Inl AttributeError)
   \<and> ((\<exists>s. Diagram_repr d = Inr s) \<longleftrightarrow> (\<exists>lb. label d = PyLabel lb))
   \<and> ((\<exists>s. Diagram_str d = Inr s) \<longleftrightarrow> (\<exists>lb. label d = PyLabel lb))"
  by (cases "label d")
    (simp_all add: Diagram_repr_def Diagram_str_def getattr_tag_def Diagram_init_def
      label_def repeating_setter_def)

theorem Diagram_repr_needs_label_witness:
  "label (Diagram_init 0 10 0 10 ''d'' PyNone None) = PyNone
   \<and> Diagram_repr (Diagram_init 0 10 0 10 ''d'' PyNone None) = Inl AttributeError
   \<and> Diagram_str (Diagram_init 0 10 0 10 ''d'' PyNone None) = Inl AttributeError
   \<and> Diagram_repr (label_setter (Diagram_init 0 10 0 10 ''d'' PyNone None)
        (PyLabel (Label_init 0 1 0 1 ''1a''))) = Inr ''Diagram(label=1a, smile=None''"
  using Diagram_repr_needs_label [of 0 10 0 10 "''d''" None "Diagram_init 0 10 0 10 ''d'' PyNone None"]
  by (simp add: Diagram_repr_def getattr_tag_def Diagram_init_def Label_init_def
      label_def label_setter_def smile_def str_opt_def repeating_setter_def)

section \<open>Properties of the graph\<close>

subsection \<open>The graph that \<open>kruskal\<close> works on\<close>

lemma graph_add_edges: "graph (add_edges self es) = graph self @ es"
  by (induction es arbitrary: self) (auto simp: add_edges_def addEdge_def)

lemma V_add_edges: "V (add_edges self es) = V self"
  by (induction es arbitrary: self) (auto simp: add_edges_def addEdge_def)

lemma weight_eq: "(\<lambda>item. snd (snd item)) = weight"
  by (rule ext) (simp add: weight_def)

lemma kruskal_alt:
  "kruskal self =
     (kruskal_loop (V self) (sort_key weight (graph self)) 0 0
        (fst (make_sets (V self))) (snd (make_sets (V self))) [],
      self\<lparr>graph := sort_key weight (graph self)\<rparr>)"
  by (simp add: kruskal_def Let_def weight_eq split: prod.split)

lemma kruskal_graph: "graph (snd (kruskal self)) = sort_key weight (graph self)"
  by (simp add: kruskal_alt)

lemma kruskal_fst:
  "fst (kruskal self) =
     kruskal_loop (V self) (sort_key weight (graph self)) 0 0
       (fst (make_sets (V self))) (snd (make_sets (V self))) []"
  by (simp add: kruskal_alt)

text \<open>
  Claim C3. \<open>kruskal\<close> scans the edge list sorted by weight in ascending order, edges of
  equal weight in the order of their insertion. For the graph on four vertices with the
  edges \<open>(0,1,1)\<close>, \<open>(1,2,2)\<close>, \<open>(0,2,3)\<close>, \<open>(2,3,1)\<close>, added in this order, it
  returns \<open>(0,1,1)\<close>, \<open>(2,3,1)\<close>, \<open>(1,2,2)\<close>, of total weight \<open>4\<close>.
\<close>

theorem kruskal_stable_sort_example:
  "sorted (map weight (graph (snd (kruskal self))))
   \<and> mset (graph (snd (kruskal self))) = mset (graph self)
   \<and> filter (\<lambda>item. weight item = k) (graph (snd (kruskal self)))
       = filter (\<lambda>item. weight item = k) (graph self)
   \<and> fst (kruskal self)
       = kruskal_loop (V self) (graph (snd (kruskal self))) 0 0
           (fst (make_sets (V self))) (snd (make_sets (V self))) []
   \<and> fst (kruskal (add_edges (Graph_init 4) [(0, 1, 1), (1, 2, 2), (0, 2, 3), (2, 3, 1::int)]))
       = Some (Inr [(0, 1, 1), (2, 3, 1), (1, 2, 2)])
   \<and> total_weight [(0, 1, 1), (2, 3, 1), (1, 2, 2::int)] = 4"
proof -
  have ex: "fst (kruskal (add_edges (Graph_init 4) [(0, 1, 1), (1, 2, 2), (0, 2, 3), (2, 3, 1::int)]))
       = Some (Inr [(0, 1, 1), (2, 3, 1), (1, 2, 2)])"
    by code_simp
  have tw: "total_weight [(0, 1, 1), (2, 3, 1), (1, 2, 2::int)] = 4"
    by (simp add: total_weight_def weight_def)
  show ?thesis
    using ex tw by (simp add: kruskal_graph kruskal_fst sort_key_stable)
qed

text \<open>
  Claim C4. A second call of \<open>kruskal\<close>, on the graph as the first call left it, has
  the outcome of the first call and leaves the same graph.
\<close>

theorem kruskal_twice_same_result:
  "fst (kruskal (snd (kruskal self))) = fst (kruskal self)
   \<and> snd (kruskal (snd (kruskal self))) = snd (kruskal self)"
proof -
  have "sort_key weight (sort_key weight (graph self)) = sort_key weight (graph self)"
    by (rule sort_key_id_if_sorted) simp
  then show ?thesis
    by (simp add: kruskal_alt)
qed

text \<open>
  Claim C8. With \<open>V = 0\<close> or \<open>V = 1\<close> the loop of \<open>kruskal\<close> returns its result
  without an iteration, whatever the edge list and the state, and \<open>kruskal\<close> returns
  the empty list.
\<close>

theorem kruskal_no_vertices_no_iteration:
  assumes "V self = 0 \<or> V self = 1"
  shows "fst (kruskal self) = Some (Inr [])
    \<and> kruskal_loop (V self) g 0 0 parent rank result = Some (Inr result)"
  using assms by (auto simp: kruskal_fst kruskal_loop.simps)

theorem kruskal_no_vertices_no_iteration_witness:
  "V (add_edges (Graph_init 1) [(0, 1, 1::int), (2, 3, 2)]) = 1
   \<and> fst (kruskal (add_edges (Graph_init 1) [(0, 1, 1::int), (2, 3, 2)])) = Some (Inr [])
   \<and> kruskal_loop (V (add_edges (Graph_init 1) [(0, 1, 1::int), (2, 3, 2)]))
        [(0, 1, 1::int), (2, 3, 2)] 0 0 [0] [0] [] = Some (Inr [])"
proof -
  have v: "V (add_edges (Graph_init 1) [(0, 1, 1::int), (2, 3, 2)]) = 1"
    by (simp add: V_add_edges Graph_init_def)
  then have "V (add_edges (Graph_init 1) [(0, 1, 1::int), (2, 3, 2)]) = 0
      \<or> V (add_edges (Graph_init 1) [(0, 1, 1::int), (2, 3, 2)]) = 1"
    by simp
  from kruskal_no_vertices_no_iteration [OF this] v show ?thesis
    by blast
qed

section \<open>Kruskal's algorithm on connected and disconnected graphs\<close>

subsection \<open>Union-find\<close>

lemma getitem_nth: "0 \<le> i \<Longrightarrow> i < int (length xs) \<Longrightarrow> getitem nm xs i = Inr (xs ! nat i)"
  by (simp add: getitem_def)

lemma setitem_upd:
  "0 \<le> i \<Longrightarrow> i < int (length xs) \<Longrightarrow> setitem nm xs i x = Inr (xs[nat i := x])"
  by (simp add: setitem_def)

lemma find_root_of: "root_of parent i r \<Longrightarrow> Graph_find parent i = Some (Inr r)"
proof (induction rule: root_of.induct)
  case (root i)
  then show ?case
    by (subst Graph_find.simps) (simp add: getitem_nth)
next
  case (link i r)
  then show ?case
    by (subst Graph_find.simps) (simp add: getitem_nth)
qed

lemma root_of_unique: "root_of parent i r \<Longrightarrow> root_of parent i r' \<Longrightarrow> r = r'"
  using find_root_of [of parent i r] find_root_of [of parent i r'] by simp

lemma root_of_is_root:
  "root_of parent i r \<Longrightarrow> 0 \<le> r \<and> r < int (length parent) \<and> parent ! nat r = r"
  by (induction rule: root_of.induct) auto

lemma root_of_root: "root_of parent i r \<Longrightarrow> root_of parent r r"
  using root_of_is_root root_of.root by blast

lemma root_of_in_range: "root_of parent i r \<Longrightarrow> 0 \<le> i \<and> i < int (length parent)"
  by (induction rule: root_of.induct) auto

text \<open>Linking the root \<open>b\<close> below another root \<open>a\<close>.\<close>

lemma root_of_link:
  assumes a: "root_of parent a a" and b: "root_of parent b b" and ab: "a \<noteq> b"
    and v: "root_of parent v r"
  shows "root_of (parent[nat b := a]) v (if r = b then a else r)"
  using v
proof (induction rule: root_of.induct)
  case (root i)
  from a b have ra: "0 \<le> a" "a < int (length parent)" "parent ! nat a = a"
    and rb: "0 \<le> b" "b < int (length parent)" "parent ! nat b = b"
    using root_of_is_root by blast+
  have na: "nat a \<noteq> nat b" using ab ra rb by simp
  have aa: "root_of (parent[nat b := a]) a a"
    using ra na by (intro root_of.root) simp_all
  show ?case
  proof (cases "i = b")
    case True
    have "root_of (parent[nat b := a]) b a"
      using rb ab aa by (intro root_of.link [where i = b]) simp_all
    with True show ?thesis by simp
  next
    case False
    with root rb have "nat i \<noteq> nat b" by simp
    with root have "root_of (parent[nat b := a]) i i"
      by (intro root_of.root) simp_all
    with False show ?thesis by simp
  qed
next
  case (link i r)
  from b have rb: "0 \<le> b" "b < int (length parent)" "parent ! nat b = b"
    using root_of_is_root by blast+
  from link rb have ib: "i \<noteq> b" by auto
  with link rb have ni: "nat i \<noteq> nat b" by simp
  show ?case
    using link ni by (intro root_of.link [where i = i]) simp_all
qed


lemma make_sets_fold:
  "fold (\<lambda>node (parent, rank). (parent @ [node], rank @ [0::int])) xs (p, r)
     = (p @ xs, r @ replicate (length xs) 0)"
proof (induction xs arbitrary: p r)
  case Nil
  then show ?case by simp
next
  case (Cons x xs)
  have "r @ 0 # replicate (length xs) 0 = (r @ [0]) @ replicate (length xs) 0"
    by simp
  with Cons show ?case by simp
qed

lemma make_sets_eq: "make_sets n = ([0..n - 1], replicate (nat n) 0)"
  by (simp add: make_sets_def range'_def make_sets_fold)

lemma root_of_initial: "v \<in> vertices n \<Longrightarrow> root_of [0..n - 1] v v"
  by (rule root_of.root) (auto simp: vertices_def)

lemma uf_inv_initial: "uf_inv n [0..n - 1] (replicate (nat n) 0) ([] :: 'w edge list)"
proof -
  have "\<exists>r. root_of [0..n - 1] v r" if "v \<in> vertices n" for v
    using root_of_initial [OF that] by blast
  moreover have "ru = rv \<longleftrightarrow> (u, v) \<in> joined ([] :: 'w edge list)"
    if "u \<in> vertices n" "v \<in> vertices n" "root_of [0..n - 1] u ru" "root_of [0..n - 1] v rv"
    for u v ru rv
  proof -
    from that have "ru = u" "rv = v"
      using root_of_initial root_of_unique by blast+
    then show ?thesis by (simp add: joined_def links_def)
  qed
  ultimately show ?thesis
    unfolding uf_inv_def by (simp add: nat_diff_distrib)
qed

text \<open>\<^verbatim>\<open>union\<close> on two different roots links one below the other.\<close>

lemma Graph_union_roots:
  assumes x: "root_of parent x x" and y: "root_of parent y y"
    and len: "length rank = length parent"
  shows "\<exists>a b rank'. Graph_union parent rank x y = Some (Inr (parent[nat b := a], rank'))
      \<and> length rank' = length rank \<and> (a = x \<and> b = y \<or> a = y \<and> b = x)"
proof -
  from x y have rx: "0 \<le> x" "x < int (length parent)" and ry: "0 \<le> y" "y < int (length parent)"
    using root_of_is_root by blast+
  have fx: "Graph_find parent x = Some (Inr x)" and fy: "Graph_find parent y = Some (Inr y)"
    using x y by (simp_all add: find_root_of)
  show ?thesis
  proof (cases "rank ! nat x < rank ! nat y")
    case True
    with rx ry len fx fy
    have "Graph_union parent rank x y = Some (Inr (parent[nat x := y], rank))"
      by (simp add: Graph_union_def bind_def lift_def return_def getitem_nth setitem_upd)
    then show ?thesis by blast
  next
    case False
    show ?thesis
    proof (cases "rank ! nat x > rank ! nat y")
      case True
      with False rx ry len fx fy
      have "Graph_union parent rank x y = Some (Inr (parent[nat y := x], rank))"
        by (simp add: Graph_union_def bind_def lift_def return_def getitem_nth setitem_upd)
      then show ?thesis by blast
    next
      case nogt: False
      with False rx ry len fx fy
      have "Graph_union parent rank x y
          = Some (Inr (parent[nat y := x], rank[nat x := rank ! nat x + 1]))"
        by (simp add: Graph_union_def bind_def lift_def return_def getitem_nth setitem_upd)
      moreover have "length (rank[nat x := rank ! nat x + 1]) = length rank" by simp
      ultimately show ?thesis by blast
    qed
  qed
qed

subsection \<open>Joined vertices\<close>

lemma links_sym: "(u, v) \<in> links es \<Longrightarrow> (v, u) \<in> links es"
  by (auto simp: links_def)

lemma links_append: "links (es @ fs) = links es \<union> links fs"
  by (auto simp: links_def)

lemma links_single: "links [(a, b, w)] = {(a, b), (b, a)}"
  by (auto simp: links_def)

lemma links_set: "set es \<subseteq> set fs \<Longrightarrow> links es \<subseteq> links fs"
  by (auto simp: links_def)

lemma joined_refl: "(u, u) \<in> joined es"
  by (simp add: joined_def)

lemma joined_trans: "(u, v) \<in> joined es \<Longrightarrow> (v, w) \<in> joined es \<Longrightarrow> (u, w) \<in> joined es"
  by (simp add: joined_def)

lemma joined_sym: "(u, v) \<in> joined es \<Longrightarrow> (v, u) \<in> joined es"
  unfolding joined_def
proof (induction rule: rtrancl_induct)
  case base
  then show ?case by simp
next
  case (step y z)
  then have "(z, y) \<in> links es" by (simp add: links_sym)
  with step show ?case by (meson converse_rtrancl_into_rtrancl)
qed

lemma joined_Nil: "joined [] = Id"
  by (simp add: joined_def links_def)

lemma joined_mono: "set es \<subseteq> set fs \<Longrightarrow> joined es \<subseteq> joined fs"
  unfolding joined_def by (intro rtrancl_mono links_set)

lemma joined_set_eq: "set es = set fs \<Longrightarrow> joined es = joined fs"
  by (simp add: joined_def links_def)

lemma joined_edge: "(a, b, w) \<in> set es \<Longrightarrow> (a, b) \<in> joined es"
  unfolding joined_def by (rule r_into_rtrancl) (auto simp: links_def)

lemma joined_subset:
  assumes "\<And>a b w. (a, b, w) \<in> set es \<Longrightarrow> (a, b) \<in> joined fs"
  shows "joined es \<subseteq> joined fs"
proof -
  have "links es \<subseteq> joined fs"
    using assms by (auto simp: links_def dest: joined_sym)
  then have "(links es)\<^sup>* \<subseteq> (joined fs)\<^sup>*"
    by (rule rtrancl_mono)
  then show ?thesis
    by (simp add: joined_def)
qed

lemma joined_snoc:
  "(u, v) \<in> joined (es @ [(a, b, w)]) \<longleftrightarrow>
     (u, v) \<in> joined es
     \<or> (u, a) \<in> joined es \<and> (b, v) \<in> joined es
     \<or> (u, b) \<in> joined es \<and> (a, v) \<in> joined es"
proof -
  let ?R = "insert (b, a) (links es)"
  have inner: "(x, y) \<in> ?R\<^sup>* \<longleftrightarrow>
      (x, y) \<in> joined es \<or> (x, b) \<in> joined es \<and> (a, y) \<in> joined es" for x y
    by (subst rtrancl_insert) (simp add: joined_def)
  have outer: "(u, v) \<in> (insert (a, b) ?R)\<^sup>* \<longleftrightarrow>
      (u, v) \<in> ?R\<^sup>* \<or> (u, a) \<in> ?R\<^sup>* \<and> (b, v) \<in> ?R\<^sup>*"
    by (subst rtrancl_insert) simp
  have "links (es @ [(a, b, w)]) = insert (a, b) ?R"
    by (auto simp: links_append links_single)
  then have "(u, v) \<in> joined (es @ [(a, b, w)]) \<longleftrightarrow> (u, v) \<in> (insert (a, b) ?R)\<^sup>*"
    by (simp add: joined_def)
  also have "\<dots> \<longleftrightarrow> (u, v) \<in> joined es
     \<or> (u, a) \<in> joined es \<and> (b, v) \<in> joined es
     \<or> (u, b) \<in> joined es \<and> (a, v) \<in> joined es"
    unfolding outer inner
    using joined_trans [of u a es v] joined_trans [of u b es v] joined_refl [of a es]
      joined_refl [of b es]
    by blast
  finally show ?thesis .
qed

lemma joined_snoc_same:
  assumes "(a, b) \<in> joined es"
  shows "joined (es @ [(a, b, w)]) = joined es"
proof -
  have "(u, v) \<in> joined (es @ [(a, b, w)]) \<longleftrightarrow> (u, v) \<in> joined es" for u v
    unfolding joined_snoc
    using assms joined_trans [of u a es b] joined_trans [of u b es v]
      joined_sym [OF assms] joined_trans [of u b es a] joined_trans [of u a es v]
    by blast
  then show ?thesis by auto
qed

subsection \<open>Counting components\<close>

lemma finite_vertices: "finite (vertices n)"
  by (simp add: vertices_def)

lemma card_vertices: "card (vertices n) = nat n"
  by (simp add: vertices_def)

lemma reps_subset: "reps n es \<subseteq> vertices n"
  by (auto simp: reps_def)

lemma finite_reps: "finite (reps n es)"
  using reps_subset finite_vertices by (rule finite_subset)

lemma ncomp_Nil: "ncomp n ([] :: 'w edge list) = nat n"
proof -
  have "reps n ([] :: 'w edge list) = vertices n"
    by (auto simp: reps_def joined_Nil)
  then show ?thesis
    by (simp add: ncomp_def card_vertices)
qed

lemma reps_mono: "joined es \<subseteq> joined fs \<Longrightarrow> reps n fs \<subseteq> reps n es"
  by (auto simp: reps_def)

lemma ncomp_mono: "joined es \<subseteq> joined fs \<Longrightarrow> ncomp n fs \<le> ncomp n es"
  unfolding ncomp_def by (intro card_mono finite_reps reps_mono)

lemma ncomp_cong: "joined es = joined fs \<Longrightarrow> ncomp n es = ncomp n fs"
  by (simp add: ncomp_def reps_def)

text \<open>Every vertex is joined to the least vertex of its component.\<close>

lemma rep_exists:
  assumes "v \<in> vertices n"
  shows "\<exists>m \<in> reps n es. (m, v) \<in> joined es"
proof -
  let ?C = "{u \<in> vertices n. (u, v) \<in> joined es}"
  have fin: "finite ?C" using finite_vertices by simp
  have ne: "?C \<noteq> {}" using assms joined_refl by blast
  define m where "m = Min ?C"
  have mC: "m \<in> ?C" unfolding m_def using fin ne by (rule Min_in)
  have least: "m \<le> u" if "u \<in> ?C" for u
    unfolding m_def using fin that by (rule Min_le)
  have "m \<in> reps n es"
    unfolding reps_def
  proof (intro CollectI conjI ballI impI)
    show "m \<in> vertices n" using mC by simp
  next
    fix u assume "u \<in> vertices n" "(u, m) \<in> joined es"
    with mC have "u \<in> ?C" using joined_trans by blast
    then show "m \<le> u" by (rule least)
  qed
  with mC show ?thesis by blast
qed

lemma reps_joined_eq:
  "m \<in> reps n es \<Longrightarrow> m' \<in> reps n es \<Longrightarrow> (m, m') \<in> joined es \<Longrightarrow> m = m'"
  using joined_sym [of m m' es] reps_subset [of n es] by (fastforce simp: reps_def)


lemma reps_snoc_subset: "reps n (es @ [e]) \<subseteq> reps n es"
  by (rule reps_mono) (rule joined_mono, auto)

text \<open>A new edge removes at most one least vertex.\<close>

lemma reps_snoc_diff:
  assumes v: "v \<in> reps n es - reps n (es @ [(a, b, w)])"
  shows "(\<exists>u \<in> vertices n. u < v \<and> (u, a) \<in> joined es \<and> (b, v) \<in> joined es)
       \<or> (\<exists>u \<in> vertices n. u < v \<and> (u, b) \<in> joined es \<and> (a, v) \<in> joined es)"
proof -
  from v have vv: "v \<in> vertices n"
    and least: "\<And>u. u \<in> vertices n \<Longrightarrow> (u, v) \<in> joined es \<Longrightarrow> v \<le> u"
    by (auto simp: reps_def)
  from v vv obtain u where u: "u \<in> vertices n" "(u, v) \<in> joined (es @ [(a, b, w)])" "\<not> v \<le> u"
    by (auto simp: reps_def)
  from u least have "(u, v) \<notin> joined es" by blast
  with u(2) have "(u, a) \<in> joined es \<and> (b, v) \<in> joined es
      \<or> (u, b) \<in> joined es \<and> (a, v) \<in> joined es"
    by (simp add: joined_snoc)
  with u show ?thesis by force
qed

lemma reps_snoc_diff_unique:
  assumes v1: "v1 \<in> reps n es - reps n (es @ [(a, b, w)])"
    and v2: "v2 \<in> reps n es - reps n (es @ [(a, b, w)])"
  shows "v1 = v2"
proof -
  from v1 have r1: "v1 \<in> reps n es" by simp
  from v2 have r2: "v2 \<in> reps n es" by simp
  have least: "m \<le> u" if "m \<in> reps n es" "u \<in> vertices n" "(u, m) \<in> joined es" for m u
    using that by (auto simp: reps_def)
  have same: "v1 = v2" if "(x, v1) \<in> joined es" "(x, v2) \<in> joined es" for x
  proof -
    from that have "(v1, v2) \<in> joined es"
      using joined_sym joined_trans by blast
    with r1 r2 show ?thesis by (rule reps_joined_eq)
  qed
  have cross: False
    if "u1 \<in> vertices n" "u1 < v1" "(u1, x) \<in> joined es" "(y, v1) \<in> joined es"
      and "u2 \<in> vertices n" "u2 < v2" "(u2, y) \<in> joined es" "(x, v2) \<in> joined es"
    for u1 u2 x y
  proof -
    from that have "(u1, v2) \<in> joined es" using joined_trans by blast
    with r2 that have "v2 \<le> u1" by (intro least)
    moreover from that have "(u2, v1) \<in> joined es" using joined_trans by blast
    with r1 that have "v1 \<le> u2" by (intro least)
    ultimately show False using that by linarith
  qed
  from reps_snoc_diff [OF v1] reps_snoc_diff [OF v2] show ?thesis
    using same cross by blast
qed

lemma ncomp_snoc_le: "ncomp n es \<le> ncomp n (es @ [e]) + 1"
proof -
  obtain a b w where e: "e = (a, b, w)" by (cases e)
  let ?A = "reps n es" and ?B = "reps n (es @ [e])"
  have "finite (?A - ?B)" by (simp add: finite_reps)
  moreover have "\<forall>x \<in> ?A - ?B. \<forall>y \<in> ?A - ?B. x = y"
    unfolding e by (intro ballI) (rule reps_snoc_diff_unique)
  ultimately have "card (?A - ?B) \<le> Suc 0"
    by (simp add: card_le_Suc0_iff_eq)
  moreover have "card ?A = card ?B + card (?A - ?B)"
  proof -
    have "?A = ?B \<union> (?A - ?B)" using reps_snoc_subset [of n es e] by blast
    then have "card ?A = card (?B \<union> (?A - ?B))" by simp
    also have "\<dots> = card ?B + card (?A - ?B)"
      by (rule card_Un_disjoint) (auto simp: finite_reps)
    finally show ?thesis .
  qed
  ultimately show ?thesis by (simp add: ncomp_def)
qed

lemma ncomp_snoc_less:
  assumes a: "a \<in> vertices n" and b: "b \<in> vertices n" and ab: "(a, b) \<notin> joined es"
  shows "ncomp n (es @ [(a, b, w)]) < ncomp n es"
proof -
  let ?A = "reps n es" and ?B = "reps n (es @ [(a, b, w)])"
  from rep_exists [OF a] obtain ma where ma: "ma \<in> ?A" "(ma, a) \<in> joined es" by blast
  from rep_exists [OF b] obtain mb where mb: "mb \<in> ?A" "(mb, b) \<in> joined es" by blast
  have ne: "ma \<noteq> mb"
    using ma mb ab joined_sym joined_trans by blast
  have j: "(ma, mb) \<in> joined (es @ [(a, b, w)])"
    using ma mb joined_sym by (auto simp: joined_snoc)
  have mav: "ma \<in> vertices n" and mbv: "mb \<in> vertices n"
    using ma mb reps_subset by blast+
  have "\<exists>m \<in> ?A. m \<notin> ?B"
  proof (cases "ma < mb")
    case True
    with j mav have "mb \<notin> ?B" by (auto simp: reps_def)
    with mb show ?thesis by blast
  next
    case False
    with ne have "mb < ma" by simp
    moreover from j have "(mb, ma) \<in> joined (es @ [(a, b, w)])" by (rule joined_sym)
    ultimately have "ma \<notin> ?B" using mbv by (auto simp: reps_def)
    with ma show ?thesis by blast
  qed
  with reps_snoc_subset [of n es "(a, b, w)"] have "?B \<subset> ?A" by blast
  with finite_reps have "card ?B < card ?A" by (rule psubset_card_mono)
  then show ?thesis by (simp add: ncomp_def)
qed

lemma ncomp_snoc_new:
  assumes "a \<in> vertices n" "b \<in> vertices n" "(a, b) \<notin> joined es"
  shows "ncomp n (es @ [(a, b, w)]) + 1 = ncomp n es"
  using ncomp_snoc_less [OF assms, of w] ncomp_snoc_le [of n es "(a, b, w)"] by simp

lemma ncomp_append_le: "ncomp n es \<le> ncomp n (es @ fs) + length fs"
proof (induction fs rule: rev_induct)
  case Nil
  then show ?case by simp
next
  case (snoc x fs)
  have "ncomp n (es @ fs) \<le> ncomp n ((es @ fs) @ [x]) + 1"
    by (rule ncomp_snoc_le)
  with snoc show ?case by simp
qed

lemma connected_ncomp:
  assumes "connected_graph n es"
  shows "ncomp n es = 1"
proof -
  from assms have n: "0 < n" and all: "\<And>u v. u \<in> vertices n \<Longrightarrow> v \<in> vertices n \<Longrightarrow> (u, v) \<in> joined es"
    by (auto simp: connected_graph_def)
  have "reps n es = {0}"
  proof (intro equalityI subsetI)
    fix v assume v: "v \<in> reps n es"
    then have vv: "v \<in> vertices n" using reps_subset by blast
    from n have "0 \<in> vertices n" by (simp add: vertices_def)
    with v vv all have "v \<le> 0" by (auto simp: reps_def)
    with vv show "v \<in> {0}" by (simp add: vertices_def)
  next
    fix v :: int assume "v \<in> {0}"
    with n show "v \<in> reps n es" by (auto simp: reps_def vertices_def)
  qed
  then show ?thesis by (simp add: ncomp_def)
qed

lemma ncomp_connected:
  assumes "ncomp n es = 1"
  shows "connected_graph n es"
proof -
  from assms obtain m where m: "reps n es = {m}"
    by (auto simp: ncomp_def card_1_singleton_iff)
  then have "m \<in> vertices n" using reps_subset [of n es] by simp
  then have n: "0 < n" by (simp add: vertices_def)
  have jm: "(m, v) \<in> joined es" if "v \<in> vertices n" for v
    using rep_exists [OF that, of es] m by simp
  have "(u, v) \<in> joined es" if "u \<in> vertices n" "v \<in> vertices n" for u v
    using jm [OF that(1)] jm [OF that(2)] joined_sym joined_trans by blast
  with n show ?thesis by (simp add: connected_graph_def)
qed

lemma ncomp_pos: "0 < n \<Longrightarrow> 0 < ncomp n es"
proof -
  assume "0 < n"
  then have "0 \<in> vertices n" by (simp add: vertices_def)
  from rep_exists [OF this, of es] have "reps n es \<noteq> {}" by blast
  with finite_reps [of n es] show ?thesis
    by (simp add: ncomp_def card_gt_0_iff)
qed

lemma uf_inv_union:
  assumes inv: "uf_inv n parent rank acc"
    and u: "u \<in> vertices n" and v: "v \<in> vertices n"
    and x: "root_of parent u x" and y: "root_of parent v y" and xy: "x \<noteq> y"
  shows "\<exists>parent' rank'. Graph_union parent rank x y = Some (Inr (parent', rank'))
      \<and> uf_inv n parent' rank' (acc @ [(u, v, w)])"
proof -
  from inv have lp: "length parent = nat n" and lr: "length rank = nat n"
    and ex: "\<And>t. t \<in> vertices n \<Longrightarrow> \<exists>r. root_of parent t r"
    and rel: "\<And>s t rs rt. s \<in> vertices n \<Longrightarrow> t \<in> vertices n \<Longrightarrow> root_of parent s rs
        \<Longrightarrow> root_of parent t rt \<Longrightarrow> (rs = rt \<longleftrightarrow> (s, t) \<in> joined acc)"
    unfolding uf_inv_def by blast+
  have xx: "root_of parent x x" and yy: "root_of parent y y"
    using x y by (auto intro: root_of_root)
  have "length rank = length parent" using lp lr by simp
  from Graph_union_roots [OF xx yy this] lr
  obtain a b rank' where un: "Graph_union parent rank x y = Some (Inr (parent[nat b := a], rank'))"
    and lr': "length rank' = nat n" and ab: "a = x \<and> b = y \<or> a = y \<and> b = x"
    by auto
  let ?p = "parent[nat b := a]"
  from ab xx yy xy have aa: "root_of parent a a" and bb: "root_of parent b b" and ne: "a \<noteq> b"
    by auto
  have new: "root_of ?p t (if r = b then a else r)" if "root_of parent t r" for t r
    using aa bb ne that by (rule root_of_link)
  have ex': "\<exists>r. root_of ?p t r" if "t \<in> vertices n" for t
    using ex [OF that] new by blast
  have rel': "rs' = rt' \<longleftrightarrow> (s, t) \<in> joined (acc @ [(u, v, w)])"
    if s: "s \<in> vertices n" and t: "t \<in> vertices n"
      and rs': "root_of ?p s rs'" and rt': "root_of ?p t rt'" for s t rs' rt'
  proof -
    from ex [OF s] obtain rs where rs: "root_of parent s rs" by blast
    from ex [OF t] obtain rt where rt: "root_of parent t rt" by blast
    have es: "rs' = (if rs = b then a else rs)"
      using new [OF rs] rs' by (rule root_of_unique [rotated])
    have et: "rt' = (if rt = b then a else rt)"
      using new [OF rt] rt' by (rule root_of_unique [rotated])
    have j1: "rs = rt \<longleftrightarrow> (s, t) \<in> joined acc" using rel [OF s t rs rt] .
    have j2: "rs = x \<longleftrightarrow> (s, u) \<in> joined acc" using rel [OF s u rs x] .
    have j3: "y = rt \<longleftrightarrow> (v, t) \<in> joined acc" using rel [OF v t y rt] .
    have j4: "rs = y \<longleftrightarrow> (s, v) \<in> joined acc" using rel [OF s v rs y] .
    have j5: "x = rt \<longleftrightarrow> (u, t) \<in> joined acc" using rel [OF u t x rt] .
    have "rs' = rt' \<longleftrightarrow> rs = rt \<or> rs = x \<and> y = rt \<or> rs = y \<and> x = rt"
      unfolding es et using ab ne by auto
    also have "\<dots> \<longleftrightarrow> (s, t) \<in> joined (acc @ [(u, v, w)])"
      unfolding joined_snoc j1 j2 j3 j4 j5 ..
    finally show ?thesis .
  qed
  have "uf_inv n ?p rank' (acc @ [(u, v, w)])"
    unfolding uf_inv_def using lp lr' ex' rel' by simp
  with un show ?thesis by blast
qed

lemma uf_inv_find:
  assumes "uf_inv n parent rank acc" "u \<in> vertices n"
  obtains x where "root_of parent u x" "Graph_find parent u = Some (Inr x)"
  using assms find_root_of unfolding uf_inv_def by blast

lemma uf_inv_same:
  assumes "uf_inv n parent rank acc" "joined acc = joined acc'"
  shows "uf_inv n parent rank acc'"
  using assms unfolding uf_inv_def by simp


subsection \<open>One iteration of the loop\<close>

lemma take_nat_Suc:
  assumes "0 \<le> i" "i < int (length g)"
  shows "take (nat (i + 1)) g = take (nat i) g @ [g ! nat i]"
proof -
  from assms have "nat (i + 1) = Suc (nat i)" "nat i < length g" by simp_all
  then show ?thesis by (simp add: take_Suc_conv_app_nth)
qed

lemma joined_snoc_cong:
  assumes "joined es = joined fs"
  shows "joined (es @ [e]) = joined (fs @ [e])"
proof -
  obtain a b w where e: "e = (a, b, w)" by (cases e)
  have "(s, t) \<in> joined (es @ [e]) \<longleftrightarrow> (s, t) \<in> joined (fs @ [e])" for s t
    unfolding e joined_snoc assms ..
  then show ?thesis by auto
qed

lemma sorted_lighter_before:
  assumes srt: "sorted (map weight g)" and k: "k < length g"
    and x: "x \<in> set g" and lt: "weight x < weight (g ! k)"
  shows "x \<in> set (take k g)"
proof -
  from x obtain j where j: "j < length g" "g ! j = x"
    by (auto simp: in_set_conv_nth)
  have "j < k"
  proof (rule ccontr)
    assume "\<not> j < k"
    then have "k \<le> j" by simp
    with srt j have "map weight g ! k \<le> map weight g ! j"
      by (intro sorted_nth_mono) simp_all
    with j k lt show False by simp
  qed
  with j have "take k g ! j = x" "j < length (take k g)" by simp_all
  then show ?thesis by (metis nth_mem)
qed

lemma greedy_Nil: "greedy n g []"
  by (simp add: greedy_def ncomp_Nil)

lemma greedy_snoc:
  assumes gr: "greedy n g acc" and srt: "sorted (map weight g)"
    and k: "k < length g" and gk: "g ! k = (u, v, w)"
    and u: "u \<in> vertices n" and v: "v \<in> vertices n"
    and nj: "(u, v) \<notin> joined acc" and same: "joined acc = joined (take k g)"
  shows "greedy n g (acc @ [(u, v, w)])"
proof -
  let ?acc = "acc @ [(u, v, w)]"
  from gr have cnt: "\<And>j. j \<le> length acc \<Longrightarrow> ncomp n (take j acc) + j = nat n"
    and light: "\<And>j a b w'. j < length acc \<Longrightarrow> (a, b, w') \<in> set g
        \<Longrightarrow> w' < weight (acc ! j) \<Longrightarrow> (a, b) \<in> joined (take j acc)"
    unfolding greedy_def by blast+
  have cnt': "ncomp n (take j ?acc) + j = nat n" if "j \<le> length ?acc" for j
  proof (cases "j \<le> length acc")
    case True
    with cnt [OF True] show ?thesis by simp
  next
    case False
    with that have j: "j = Suc (length acc)" by simp
    have "ncomp n ?acc + 1 = ncomp n acc"
      using u v nj by (rule ncomp_snoc_new)
    moreover have "ncomp n acc + length acc = nat n"
      using cnt [of "length acc"] by simp
    ultimately show ?thesis using j by simp
  qed
  have light': "(a, b) \<in> joined (take j ?acc)"
    if "j < length ?acc" "(a, b, w') \<in> set g" "w' < weight (?acc ! j)" for j a b w'
  proof (cases "j < length acc")
    case True
    with that light [OF True that(2)] show ?thesis by (simp add: nth_append)
  next
    case False
    with that have j: "j = length acc" by simp
    with that gk have "weight (a, b, w') < weight (g ! k)"
      by (simp add: weight_def)
    with srt k that(2) have "(a, b, w') \<in> set (take k g)"
      by (intro sorted_lighter_before)
    then have "(a, b) \<in> joined (take k g)" by (rule joined_edge)
    with same j show ?thesis by simp
  qed
  show ?thesis
    unfolding greedy_def using cnt' light' by blast
qed

lemma kruskal_step:
  assumes inv: "kruskal_inv n g i e parent rank result"
    and valid: "valid_edges n g" and srt: "sorted (map weight g)"
    and e: "e < n - 1" and i: "i < int (length g)"
  shows "\<exists>e' parent' rank' result'.
      kruskal_loop n g i e parent rank result = kruskal_loop n g (i + 1) e' parent' rank' result'
      \<and> kruskal_inv n g (i + 1) e' parent' rank' result'"
proof -
  from inv have i0: "0 \<le> i" and el: "e = int (length result)"
    and uf: "uf_inv n parent rank result"
    and same: "joined result = joined (take (nat i) g)"
    and sub: "subseq result (take (nat i) g)"
    and gr: "greedy n g result"
    unfolding kruskal_inv_def by blast+
  from i0 i have k: "nat i < length g" by simp
  obtain u v w where gi: "g ! nat i = (u, v, w)" by (cases "g ! nat i")
  from i0 i gi have get: "getitem GraphList g i = Inr (u, v, w)"
    by (simp add: getitem_def)
  from k gi have "(u, v, w) \<in> set g" by (metis nth_mem)
  with valid have u: "u \<in> vertices n" and v: "v \<in> vertices n"
    unfolding valid_edges_def by blast+
  from uf u obtain x where x: "root_of parent u x" "Graph_find parent u = Some (Inr x)"
    by (rule uf_inv_find)
  from uf v obtain y where y: "root_of parent v y" "Graph_find parent v = Some (Inr y)"
    by (rule uf_inv_find)
  from uf u v x(1) y(1) have xy: "x = y \<longleftrightarrow> (u, v) \<in> joined result"
    unfolding uf_inv_def by blast
  have tk: "take (nat (i + 1)) g = take (nat i) g @ [(u, v, w)]"
    using take_nat_Suc [OF i0 i] gi by simp
  have bounds: "0 \<le> i + 1" "i + 1 \<le> int (length g)"
    using i0 i by simp_all
  show ?thesis
  proof (cases "x = y")
    case True
    have loop: "kruskal_loop n g i e parent rank result
        = kruskal_loop n g (i + 1) e parent rank result"
      using e get x(2) y(2) True by (subst kruskal_loop.simps) simp
    from True xy same have "(u, v) \<in> joined (take (nat i) g)" by simp
    then have "joined (take (nat (i + 1)) g) = joined (take (nat i) g)"
      unfolding tk by (rule joined_snoc_same)
    with same have same': "joined result = joined (take (nat (i + 1)) g)" by simp
    from sub have sub': "subseq result (take (nat (i + 1)) g)"
      unfolding tk by (rule subseq_rev_drop_many)
    have "kruskal_inv n g (i + 1) e parent rank result"
      unfolding kruskal_inv_def using bounds el uf same' sub' gr by simp
    with loop show ?thesis by blast
  next
    case False
    from uf_inv_union [OF uf u v x(1) y(1) False, of w]
    obtain parent' rank' where un: "Graph_union parent rank x y = Some (Inr (parent', rank'))"
      and uf': "uf_inv n parent' rank' (result @ [(u, v, w)])"
      by blast
    have loop: "kruskal_loop n g i e parent rank result
        = kruskal_loop n g (i + 1) (e + 1) parent' rank' (result @ [(u, v, w)])"
      using e get x(2) y(2) False un by (subst kruskal_loop.simps) simp
    from False xy have nj: "(u, v) \<notin> joined result" by simp
    have same': "joined (result @ [(u, v, w)]) = joined (take (nat (i + 1)) g)"
      unfolding tk using same by (rule joined_snoc_cong)
    have sub': "subseq (result @ [(u, v, w)]) (take (nat (i + 1)) g)"
      unfolding tk using sub by simp
    have gr': "greedy n g (result @ [(u, v, w)])"
      using gr srt k gi u v nj same by (rule greedy_snoc)
    have "kruskal_inv n g (i + 1) (e + 1) parent' rank' (result @ [(u, v, w)])"
      unfolding kruskal_inv_def using bounds el uf' same' sub' gr' by simp
    with loop show ?thesis by blast
  qed
qed

subsection \<open>The loop as a whole\<close>

lemma kruskal_inv_count:
  assumes inv: "kruskal_inv n g i e parent rank result" and n: "0 < n"
  shows "int (ncomp n result) + e = n"
proof -
  from inv have el: "e = int (length result)" and "greedy n g result"
    unfolding kruskal_inv_def by blast+
  then have "ncomp n result + length result = nat n"
    unfolding greedy_def by auto
  then have "int (ncomp n result + length result) = int (nat n)"
    by simp
  with n el show ?thesis by simp
qed

lemma kruskal_inv_joined_subset:
  assumes "kruskal_inv n g i e parent rank result"
  shows "joined result \<subseteq> joined g"
proof -
  from assms have "joined result = joined (take (nat i) g)"
    unfolding kruskal_inv_def by blast
  moreover have "joined (take (nat i) g) \<subseteq> joined g"
    by (rule joined_mono) (rule set_take_subset)
  ultimately show ?thesis by simp
qed

lemma kruskal_inv_full:
  assumes inv: "kruskal_inv n g i e parent rank result" and "\<not> e < n - 1" and n: "0 < n"
  shows "e = n - 1 \<and> connected_graph n result"
proof -
  from ncomp_pos [OF n] have "0 < ncomp n result" .
  with kruskal_inv_count [OF inv n] assms(2) have "e = n - 1" "ncomp n result = 1"
    by simp_all
  then show ?thesis by (simp add: ncomp_connected)
qed

lemma connected_mono:
  "connected_graph n es \<Longrightarrow> joined es \<subseteq> joined fs \<Longrightarrow> connected_graph n fs"
  unfolding connected_graph_def by blast

lemma disconnected_not_connected: "disconnected_graph n es \<Longrightarrow> \<not> connected_graph n es"
  unfolding connected_graph_def disconnected_graph_def by blast

lemma disconnected_pos: "disconnected_graph n es \<Longrightarrow> 0 < n"
  unfolding disconnected_graph_def vertices_def by auto

lemma kruskal_loop_connected:
  assumes valid: "valid_edges n g" and srt: "sorted (map weight g)"
    and conn: "connected_graph n g"
    and inv: "kruskal_inv n g i e parent rank result"
  shows "\<exists>res i' parent' rank'.
      kruskal_loop n g i e parent rank result = Some (Inr res)
      \<and> kruskal_inv n g i' (n - 1) parent' rank' res"
  using inv
proof (induction "nat (int (length g) - i)" arbitrary: i e parent rank result rule: less_induct)
  case less
  note inv = less.prems
  from conn have n: "0 < n" by (simp add: connected_graph_def)
  show ?case
  proof (cases "e < n - 1")
    case False
    then have "kruskal_loop n g i e parent rank result = Some (Inr result)"
      by (subst kruskal_loop.simps) simp
    moreover from kruskal_inv_full [OF inv False n] have "e = n - 1" by simp
    ultimately show ?thesis using inv by blast
  next
    case True
    from inv have i0: "0 \<le> i" and il: "i \<le> int (length g)"
      and same: "joined result = joined (take (nat i) g)"
      unfolding kruskal_inv_def by blast+
    have "i \<noteq> int (length g)"
    proof
      assume "i = int (length g)"
      with same have "joined result = joined g" by simp
      with conn have "connected_graph n result" by (simp add: connected_graph_def)
      then have "ncomp n result = 1" by (rule connected_ncomp)
      with kruskal_inv_count [OF inv n] have "e = n - 1" by simp
      with True show False by simp
    qed
    with il have i: "i < int (length g)" by simp
    from kruskal_step [OF inv valid srt True i]
    obtain e' parent' rank' result' where
      loop: "kruskal_loop n g i e parent rank result
          = kruskal_loop n g (i + 1) e' parent' rank' result'"
      and inv': "kruskal_inv n g (i + 1) e' parent' rank' result'"
      by blast
    from i have "nat (int (length g) - (i + 1)) < nat (int (length g) - i)" by simp
    from less.hyps [OF this inv'] loop show ?thesis by simp
  qed
qed

lemma kruskal_loop_disconnected:
  assumes valid: "valid_edges n g" and srt: "sorted (map weight g)"
    and disc: "disconnected_graph n g"
    and inv: "kruskal_inv n g i e parent rank result"
  shows "kruskal_loop n g i e parent rank result = Some (Inl (IndexError GraphList))"
  using inv
proof (induction "nat (int (length g) - i)" arbitrary: i e parent rank result rule: less_induct)
  case less
  note inv = less.prems
  from disc have n: "0 < n" by (rule disconnected_pos)
  have e: "e < n - 1"
  proof (rule ccontr)
    assume "\<not> e < n - 1"
    from kruskal_inv_full [OF inv this n] have "connected_graph n result" by simp
    from this kruskal_inv_joined_subset [OF inv] have "connected_graph n g"
      by (rule connected_mono)
    with disc show False by (simp add: disconnected_not_connected)
  qed
  from inv have i0: "0 \<le> i" and il: "i \<le> int (length g)"
    unfolding kruskal_inv_def by blast+
  show ?case
  proof (cases "i = int (length g)")
    case True
    then have "getitem GraphList g i = Inl (IndexError GraphList)"
      by (simp add: getitem_def)
    with e show ?thesis by (subst kruskal_loop.simps) simp
  next
    case False
    with il have i: "i < int (length g)" by simp
    from kruskal_step [OF inv valid srt e i]
    obtain e' parent' rank' result' where
      loop: "kruskal_loop n g i e parent rank result
          = kruskal_loop n g (i + 1) e' parent' rank' result'"
      and inv': "kruskal_inv n g (i + 1) e' parent' rank' result'"
      by blast
    from i have "nat (int (length g) - (i + 1)) < nat (int (length g) - i)" by simp
    from less.hyps [OF this inv'] loop show ?thesis by simp
  qed
qed

lemma kruskal_inv_initial: "kruskal_inv n g 0 0 [0..n - 1] (replicate (nat n) 0) []"
  unfolding kruskal_inv_def
  by (simp add: uf_inv_initial greedy_Nil)

subsection \<open>The accepted edges are lightest\<close>

lemma subseq_mset: "subseq xs ys \<Longrightarrow> mset xs \<subseteq># mset ys"
proof (induction rule: list_emb.induct)
  case (list_emb_Nil ys)
  then show ?case by simp
next
  case (list_emb_Cons xs ys y)
  have "mset ys \<subseteq># mset (y # ys)" by simp
  with list_emb_Cons.IH show ?case by (rule subset_mset.order_trans)
next
  case (list_emb_Cons2 x y xs ys)
  then show ?case by simp
qed

lemma subseq_sorted:
  assumes "subseq xs ys" "sorted (map f ys)"
  shows "sorted (map f xs)"
proof -
  from assms(1) have "subseq (map f xs) (map f ys)" by (rule subseq_map)
  then obtain N where "map f xs = nths (map f ys) N"
    unfolding subseq_conv_nths by blast
  with assms(2) show ?thesis by (simp add: sorted_nths)
qed

lemma greedy_dominates:
  fixes K T :: "('w::linorder) edge list"
  assumes gr: "greedy n g K" and lenK: "int (length K) = n - 1"
    and T: "spanning_tree n g T" and srt: "sorted (map weight T)"
    and j: "j < length K"
  shows "weight (K ! j) \<le> weight (T ! j)"
proof (rule ccontr)
  assume "\<not> weight (K ! j) \<le> weight (T ! j)"
  then have lt: "weight (T ! j) < weight (K ! j)" by simp
  from T have msub: "mset T \<subseteq># mset g" and lenT: "int (length T) = n - 1"
    and conn: "connected_graph n T"
    unfolding spanning_tree_def by simp_all
  from msub have "set_mset (mset T) \<subseteq> set_mset (mset g)" by (rule set_mset_mono)
  then have sub: "set T \<subseteq> set g" by simp
  from lenK lenT have len: "length T = length K" by simp
  from conn have n: "0 < n" by (simp add: connected_graph_def)
  from gr j have cnt: "ncomp n (take j K) + j = nat n"
    unfolding greedy_def by simp
  let ?S = "take (Suc j) T"
  have inS: "(a, b) \<in> joined (take j K)" if "(a, b, w) \<in> set ?S" for a b w
  proof -
    from that obtain k where k: "k < length ?S" "?S ! k = (a, b, w)"
      by (auto simp: in_set_conv_nth)
    then have kj: "k \<le> j" and kT: "k < length T" and Tk: "T ! k = (a, b, w)" by simp_all
    from srt kj j len have "map weight T ! k \<le> map weight T ! j"
      by (intro sorted_nth_mono) simp_all
    with kT j len Tk have "w \<le> weight (T ! j)" by (simp add: weight_def)
    with lt have w: "w < weight (K ! j)" by simp
    from kT Tk sub have "(a, b, w) \<in> set g" by (metis nth_mem subsetD)
    with gr j w show ?thesis unfolding greedy_def by blast
  qed
  then have "joined ?S \<subseteq> joined (take j K)" by (rule joined_subset)
  then have "ncomp n (take j K) \<le> ncomp n ?S" by (rule ncomp_mono)
  also have "ncomp n ?S \<le> ncomp n (?S @ drop (Suc j) T) + length (drop (Suc j) T)"
    by (rule ncomp_append_le)
  also have "\<dots> = ncomp n T + (length T - Suc j)" by simp
  also have "ncomp n T = 1" using conn by (rule connected_ncomp)
  finally have "ncomp n (take j K) \<le> 1 + (length K - Suc j)" using len by simp
  moreover from lenK n have "nat n = Suc (length K)" by simp
  ultimately show False using cnt j by simp
qed

lemma greedy_minimal:
  fixes K T :: "('w::{linorder, ordered_comm_monoid_add}) edge list"
  assumes gr: "greedy n g K" and lenK: "int (length K) = n - 1"
    and T: "spanning_tree n g T"
  shows "total_weight K \<le> total_weight T"
proof -
  define T' where "T' = sort_key weight T"
  have mT: "mset T' = mset T" and srt: "sorted (map weight T')"
    by (simp_all add: T'_def)
  have lT: "length T' = length T" by (simp add: T'_def)
  have "set T' = set T" by (simp add: T'_def)
  then have "joined T' = joined T" by (rule joined_set_eq)
  with T mT lT have T': "spanning_tree n g T'"
    unfolding spanning_tree_def connected_graph_def by simp
  from T lenK have len: "length K = length T'"
    unfolding spanning_tree_def lT by simp
  have "sum_list (map weight K) \<le> sum_list (map weight T')"
  proof (rule sum_list_mono2)
    show "length (map weight K) = length (map weight T')" using len by simp
  next
    fix i
    show "i < length (map weight K) \<longrightarrow> map weight K ! i \<le> map weight T' ! i"
      using greedy_dominates [OF gr lenK T' srt, of i] len by simp
  qed
  also have "sum_list (map weight T') = sum_list (map weight T)"
  proof -
    have "sum_mset (mset (map weight T')) = sum_mset (mset (map weight T))"
      using mT by simp
    then show ?thesis by (simp only: sum_mset_sum_list)
  qed
  finally show ?thesis by (simp add: total_weight_def)
qed

subsection \<open>The graph that is scanned\<close>

lemma valid_edges_set: "set es = set fs \<Longrightarrow> valid_edges n es = valid_edges n fs"
  by (simp add: valid_edges_def)

lemma connected_graph_set: "set es = set fs \<Longrightarrow> connected_graph n es = connected_graph n fs"
  by (simp add: connected_graph_def joined_set_eq [of es fs])

lemma disconnected_graph_set:
  "set es = set fs \<Longrightarrow> disconnected_graph n es = disconnected_graph n fs"
  by (simp add: disconnected_graph_def joined_set_eq [of es fs])

lemma spanning_tree_mset: "mset es = mset fs \<Longrightarrow> spanning_tree n es t = spanning_tree n fs t"
  by (simp add: spanning_tree_def)

lemma kruskal_built:
  "fst (kruskal (add_edges (Graph_init n) es)) =
     kruskal_loop n (sort_key weight es) 0 0 [0..n - 1] (replicate (nat n) 0) []"
  by (simp add: kruskal_fst V_add_edges graph_add_edges Graph_init_def make_sets_eq)

lemma connected_graphI:
  assumes "0 < n" and "\<And>v. v \<in> vertices n \<Longrightarrow> (0, v) \<in> joined es"
  shows "connected_graph n es"
  unfolding connected_graph_def
  using assms joined_sym [of 0 _ es] joined_trans [of _ 0 es] by blast

text \<open>
  Claim C1. For a well-formed, connected graph on \<open>n\<close> vertices, built by \<open>addEdge\<close>
  calls, \<open>kruskal\<close> returns a list of exactly \<open>n - 1\<close> edges; the list follows the
  order of the sorted scan, so its weights do not decrease; it is a spanning tree of the
  graph, and no spanning tree of the graph has a smaller total weight.
\<close>

theorem kruskal_minimum_spanning_tree:
  fixes es :: "('w::{linorder, ordered_comm_monoid_add}) edge list"
  assumes valid: "valid_edges n es" and conn: "connected_graph n es"
  shows "\<exists>res. fst (kruskal (add_edges (Graph_init n) es)) = Some (Inr res)
      \<and> int (length res) = n - 1
      \<and> subseq res (graph (snd (kruskal (add_edges (Graph_init n) es))))
      \<and> sorted (map weight res)
      \<and> spanning_tree n es res
      \<and> (\<forall>t. spanning_tree n es t \<longrightarrow> total_weight res \<le> total_weight t)"
proof -
  let ?g = "sort_key weight es"
  have set: "set ?g = set es" and mset: "mset ?g = mset es" and srt: "sorted (map weight ?g)"
    by simp_all
  from valid have valid': "valid_edges n ?g"
    by (simp add: valid_edges_set [OF set])
  from conn have conn': "connected_graph n ?g"
    by (simp add: connected_graph_set [OF set])
  from conn have n: "0 < n" by (simp add: connected_graph_def)
  from kruskal_loop_connected [OF valid' srt conn' kruskal_inv_initial]
  obtain res i parent rank
    where loop: "kruskal_loop n ?g 0 0 [0..n - 1] (replicate (nat n) 0) [] = Some (Inr res)"
      and inv: "kruskal_inv n ?g i (n - 1) parent rank res"
    by blast
  from inv have len: "int (length res) = n - 1"
    and sub: "subseq res (take (nat i) ?g)" and gr: "greedy n ?g res"
    unfolding kruskal_inv_def by simp_all
  from sub have sub': "subseq res ?g"
    using subseq_rev_drop_many [of res "take (nat i) ?g" "drop (nat i) ?g"] by simp
  then have sorted: "sorted (map weight res)"
    using srt by (rule subseq_sorted)
  from kruskal_inv_count [OF inv n] have "ncomp n res = 1" by simp
  then have "connected_graph n res" by (rule ncomp_connected)
  moreover from sub' have "mset res \<subseteq># mset ?g" by (rule subseq_mset)
  ultimately have tree: "spanning_tree n es res"
    using len by (simp add: spanning_tree_def)
  have least: "total_weight res \<le> total_weight t" if "spanning_tree n es t" for t
  proof -
    from that have "spanning_tree n ?g t"
      by (simp add: spanning_tree_mset [OF mset])
    with gr len show ?thesis by (rule greedy_minimal)
  qed
  have "graph (snd (kruskal (add_edges (Graph_init n) es))) = ?g"
    by (simp add: kruskal_graph graph_add_edges Graph_init_def)
  with loop len sub' sorted tree least show ?thesis
    by (simp add: kruskal_built)
qed

theorem kruskal_minimum_spanning_tree_witness:
  "valid_edges 3 [(0, 1, 2), (1, 2, 1), (0, 2, 3::int)]
   \<and> connected_graph 3 [(0, 1, 2), (1, 2, 1), (0, 2, 3::int)]
   \<and> fst (kruskal (add_edges (Graph_init 3) [(0, 1, 2), (1, 2, 1), (0, 2, 3::int)]))
       = Some (Inr [(1, 2, 1), (0, 1, 2)])
   \<and> spanning_tree 3 [(0, 1, 2), (1, 2, 1), (0, 2, 3::int)] [(1, 2, 1), (0, 1, 2)]
   \<and> spanning_tree 3 [(0, 1, 2), (1, 2, 1), (0, 2, 3::int)] [(0, 1, 2), (0, 2, 3)]
   \<and> total_weight [(1, 2, 1), (0, 1, 2::int)] \<le> total_weight [(0, 1, 2), (0, 2, 3::int)]"
proof -
  let ?es = "[(0, 1, 2), (1, 2, 1), (0, 2, 3::int)]"
  let ?t = "[(0, 1, 2), (0, 2, 3::int)]"
  have vs: "vertices 3 = {0, 1, 2}" by (auto simp: vertices_def)
  have valid: "valid_edges 3 ?es" by (simp add: valid_edges_def vs)
  have j1: "(0, 1) \<in> joined ?es" by (rule joined_edge [of 0 1 2]) simp
  have j2: "(1, 2) \<in> joined ?es" by (rule joined_edge [of 1 2 1]) simp
  have conn: "connected_graph 3 ?es"
  proof (rule connected_graphI)
    fix v :: int assume "v \<in> vertices 3"
    then have "v = 0 \<or> v = 1 \<or> v = 2" by (simp add: vs)
    then show "(0, v) \<in> joined ?es"
      using j1 joined_trans [OF j1 j2] joined_refl [of 0 ?es] by auto
  qed simp
  have t1: "(0, 1) \<in> joined ?t" by (rule joined_edge [of 0 1 2]) simp
  have t2: "(0, 2) \<in> joined ?t" by (rule joined_edge [of 0 2 3]) simp
  have "connected_graph 3 ?t"
  proof (rule connected_graphI)
    fix v :: int assume "v \<in> vertices 3"
    then have "v = 0 \<or> v = 1 \<or> v = 2" by (simp add: vs)
    then show "(0, v) \<in> joined ?t"
      using t1 t2 joined_refl [of 0 ?t] by auto
  qed simp
  then have tree: "spanning_tree 3 ?es ?t"
    by (simp add: spanning_tree_def)
  have run: "fst (kruskal (add_edges (Graph_init 3) ?es)) = Some (Inr [(1, 2, 1), (0, 1, 2)])"
    by code_simp
  from kruskal_minimum_spanning_tree [OF valid conn] run valid conn tree show ?thesis
    by auto
qed

text \<open>
  Claim C2. For a well-formed, disconnected graph the loop of \<open>kruskal\<close> never accepts
  \<open>n - 1\<close> edges: it reads the sorted edge list at the index past its end, and the
  outcome of \<open>kruskal\<close> is the index error of that read.
\<close>

theorem kruskal_disconnected_index_error:
  fixes es :: "('w::linorder) edge list"
  assumes valid: "valid_edges n es" and disc: "disconnected_graph n es"
  shows "fst (kruskal (add_edges (Graph_init n) es)) = Some (Inl (IndexError GraphList))"
proof -
  let ?g = "sort_key weight es"
  have set: "set ?g = set es" and srt: "sorted (map weight ?g)"
    by simp_all
  from valid have valid': "valid_edges n ?g"
    by (simp add: valid_edges_set [OF set])
  from disc have disc': "disconnected_graph n ?g"
    by (simp add: disconnected_graph_set [OF set])
  from kruskal_loop_disconnected [OF valid' srt disc' kruskal_inv_initial]
  show ?thesis by (simp add: kruskal_built)
qed

theorem kruskal_disconnected_index_error_witness:
  "valid_edges 4 [(0, 1, 1), (2, 3, 2::int)]
   \<and> disconnected_graph 4 [(0, 1, 1), (2, 3, 2::int)]
   \<and> fst (kruskal (add_edges (Graph_init 4) [(0, 1, 1), (2, 3, 2::int)]))
       = Some (Inl (IndexError GraphList))"
proof -
  let ?es = "[(0, 1, 1), (2, 3, 2::int)]"
  have valid: "valid_edges 4 ?es" by (simp add: valid_edges_def vertices_def)
  have stay: "v = 0 \<or> v = 1" if "(0, v) \<in> joined ?es" for v
    using that unfolding joined_def
  proof (induction rule: rtrancl_induct)
    case base
    then show ?case by simp
  next
    case (step y z)
    then show ?case by (auto simp: links_def)
  qed
  have "(0, 2) \<notin> joined ?es"
    using stay [of 2] by auto
  then have disc: "disconnected_graph 4 ?es"
    unfolding disconnected_graph_def vertices_def by force
  from kruskal_disconnected_index_error [OF valid disc] valid disc show ?thesis
    by simp
qed

end
